theory Spec2Isabelle
  imports Main "HOL-Library.Sublist"
begin

section \<open>Plugin state behaviours: the embedding\<close>

text \<open>
  The development embeds the command handlers of the plugin's state behaviour module
  (\<^verbatim>\<open>registerDefault\<close> and the functions it installs): the behaviour lifecycle hook,
  removal with ghost parents, subtree visibility, and the snapshot commands (apply, upload,
  download to file, open file). Each handler is a function of the data it reads; what it
  does to its collaborators (asset registry, plugin state, log) is the list of effects it
  returns, in the order of the source.
\<close>

subsection \<open>References and errors\<close>

type_synonym ref = string

text \<open>\<^verbatim>\<open>TypeError\<close> is what reading a property of \<^verbatim>\<open>undefined\<close> raises in the
  handlers; \<^verbatim>\<open>InvalidReference\<close> is the failure of a tree operation on a reference
  that the tree does not hold.\<close>

datatype error = TypeError | InvalidReference

subsection \<open>SyncBehaviors\<close>

text \<open>
  Modelled from the spec: the state objects and the type guard \<^verbatim>\<open>SO.isBehavior\<close>,
  declared outside the sources. The spec has the objects as a closed tagged variant with
  a discriminant. A state object is either a behaviour, which carries the data whose
  \<^verbatim>\<open>register\<close> and \<^verbatim>\<open>unregister\<close> methods the hook calls, or an object of any other
  type class.
\<close>

datatype ('b, 'o) stateObject = Behavior 'b | NonBehavior 'o

text \<open>Modelled from the spec: the type guard \<^verbatim>\<open>SO.isBehavior\<close>, the test for the
  first alternative.\<close>

fun isBehavior :: "('b, 'o) stateObject \<Rightarrow> bool" where
  "isBehavior (Behavior b) = True"
| "isBehavior (NonBehavior x) = False"

datatype updateAction = Recreate | InPlace

text \<open>The three lifecycle notifications, with the fields the hook reads. In an
  \<^verbatim>\<open>updated\<close> event either object may be absent.\<close>

datatype ('b, 'o) objectEvent =
    Created ref "('b, 'o) stateObject"
  | Removed ref "('b, 'o) stateObject"
  | Updated updateAction ref "('b, 'o) stateObject option" "('b, 'o) stateObject option"

text \<open>The calls the hook makes on behaviour data, in the order it makes them.\<close>

datatype 'b behaviorCall = Register 'b ref | Unregister 'b

text \<open>\<^verbatim>\<open>if (o.oldObj && SO.isBehavior(o.oldObj)) o.oldObj.data.unregister()\<close>\<close>

definition unregisterOld :: "('b, 'o) stateObject option \<Rightarrow> 'b behaviorCall list" where
  "unregisterOld oldObj =
     (case oldObj of
        None \<Rightarrow> []
      | Some ob \<Rightarrow>
          if isBehavior ob then (case ob of Behavior b \<Rightarrow> [Unregister b] | NonBehavior x \<Rightarrow> [])
          else [])"

text \<open>\<^verbatim>\<open>if (o.obj && SO.isBehavior(o.obj)) o.obj.data.register(o.ref)\<close>\<close>

definition registerNew :: "ref \<Rightarrow> ('b, 'o) stateObject option \<Rightarrow> 'b behaviorCall list" where
  "registerNew r obj =
     (case obj of
        None \<Rightarrow> []
      | Some ob \<Rightarrow>
          if isBehavior ob then (case ob of Behavior b \<Rightarrow> [Register b r] | NonBehavior x \<Rightarrow> [])
          else [])"

text \<open>The three subscriptions of \<^verbatim>\<open>SyncBehaviors\<close>, as one function of the event
  delivered. After the guard the object is a behaviour and \<^verbatim>\<open>o.obj.data\<close> is its
  data.\<close>

fun SyncBehaviors :: "('b, 'o) objectEvent \<Rightarrow> 'b behaviorCall list" where
  "SyncBehaviors (Created r obj) =
     (if \<not> isBehavior obj then []
      else (case obj of Behavior b \<Rightarrow> [Register b r] | NonBehavior x \<Rightarrow> []))"
| "SyncBehaviors (Removed r obj) =
     (if \<not> isBehavior obj then []
      else (case obj of Behavior b \<Rightarrow> [Unregister b] | NonBehavior x \<Rightarrow> []))"
| "SyncBehaviors (Updated action r oldObj obj) =
     (if action = Recreate then unregisterOld oldObj @ registerNew r obj else [])"

subsection \<open>The state tree\<close>

text \<open>
  A transform carries its own reference, the reference of its parent (its own for the
  root) and its state flags; an absent flag of the source is \<^verbatim>\<open>False\<close>. The tree is
  the pair of maps the handlers read: \<^verbatim>\<open>tree.transforms\<close> and \<^verbatim>\<open>tree.children\<close>.
  A set of children is the list of its members in insertion order, without repetition,
  so that its \<^verbatim>\<open>size\<close> is the length of the list.
\<close>

record transformState =
  isGhost :: bool
  isHidden :: bool
  isCollapsed :: bool

record transform =
  ref :: ref
  parent :: ref
  state :: transformState

record stateTree =
  transforms :: "ref \<rightharpoonup> transform"
  children :: "ref \<rightharpoonup> ref list"

subsection \<open>RemoveObject\<close>

text \<open>
  The \<^verbatim>\<open>while (true)\<close> loop of the handler. It may not return on maps whose parent
  references run in a circle, hence the option type; \<^verbatim>\<open>remove\<close> is the inner function
  of the source, which deletes the reference it is given from the tree and commits the
  result; the loop hands it one reference. Reading \<^verbatim>\<open>children.size\<close> or
  \<^verbatim>\<open>parent.state\<close> of a missing entry raises.
\<close>

partial_function (option) ghostLoop ::
  "(ref \<Rightarrow> 'r) \<Rightarrow> stateTree \<Rightarrow> transform \<Rightarrow> (error + 'r) option" where
  "ghostLoop remove tr cur =
     (let cs = children tr (parent cur) in
      if parent cur = ref cur then Some (Inr (remove (ref cur)))
      else (case cs of
              None \<Rightarrow> Some (Inl TypeError)
            | Some cs' \<Rightarrow>
                if length cs' > 1 then Some (Inr (remove (ref cur)))
                else (case transforms tr (parent cur) of
                        None \<Rightarrow> Some (Inl TypeError)
                      | Some p \<Rightarrow>
                          if \<not> isGhost (state p) then Some (Inr (remove (ref cur)))
                          else ghostLoop remove tr p)))"

text \<open>The handler of \<^verbatim>\<open>PluginCommands.State.RemoveObject\<close>; \<^verbatim>\<open>tr\<close> is
  \<^verbatim>\<open>state.tree\<close>.\<close>

definition RemoveObject ::
  "(ref \<Rightarrow> 'r) \<Rightarrow> stateTree \<Rightarrow> ref \<Rightarrow> bool \<Rightarrow> (error + 'r) option" where
  "RemoveObject remove tr r removeParentGhosts =
     (if removeParentGhosts then
        (case transforms tr r of
           None \<Rightarrow> Some (Inl TypeError)
         | Some cur \<Rightarrow>
             if parent cur = r then Some (Inr (remove r))
             else ghostLoop remove tr cur)
      else Some (Inr (remove r)))"

text \<open>
  Modelled from the spec: the subtree of a node, for \<^verbatim>\<open>delete(ref)\<close> of the state
  tree, whose code is not among the sources. The subtree of a node is the node and
  everything reached from it through the children map.
\<close>

inductive_set subtree :: "stateTree \<Rightarrow> ref \<Rightarrow> ref set" for tr :: stateTree and root :: ref where
  subtree_root: "root \<in> subtree tr root"
| subtree_child: "x \<in> subtree tr root \<Longrightarrow> children tr x = Some cs \<Longrightarrow> c \<in> set cs
     \<Longrightarrow> c \<in> subtree tr root"


subsection \<open>Subtree visibility\<close>

text \<open>
  Modelled from the spec: the cell of the cell store, declared outside the sources. A
  cell is the runtime record of a node; of its fields (object, status, display flags)
  only the display flags matter here.
\<close>

record cell =
  cellState :: transformState

text \<open>Modelled from the spec: the state, declared outside the sources, with the
  committed tree and the cells by reference.\<close>

record State =
  tree :: stateTree
  cells :: "ref \<rightharpoonup> cell"

text \<open>
  Modelled from the spec: \<^verbatim>\<open>updateCellState\<close>, whose code is not among the sources.
  It changes the flags of the cell of a reference and leaves a state without such a cell
  as it is.
\<close>

definition updateCellState ::
  "State \<Rightarrow> ref \<Rightarrow> (transformState \<Rightarrow> transformState) \<Rightarrow> State" where
  "updateCellState st r upd =
     (case cells st r of
        None \<Rightarrow> st
      | Some c \<Rightarrow> st\<lparr>cells := (cells st)(r \<mapsto> c\<lparr>cellState := upd (cellState c)\<rparr>)\<rparr>)"

text \<open>
  Modelled from the spec: the visit order of the pre-order traversal, whose code is not
  among the sources. The traversal visits a subtree root and then its children, left to
  right in insertion order; the fuel bounds the depth, and running out of it is the value
  \<^verbatim>\<open>None\<close>.
\<close>

fun preOrder :: "nat \<Rightarrow> stateTree \<Rightarrow> ref \<Rightarrow> ref list option" where
  "preOrder 0 tr r = None"
| "preOrder (Suc n) tr r =
     (case children tr r of
        None \<Rightarrow> Some [r]
      | Some cs \<Rightarrow> map_option (\<lambda>xs. r # concat xs) (those (map (preOrder n tr) cs)))"

text \<open>
  Modelled from the spec: \<^verbatim>\<open>StateTree.doPreOrder\<close>, whose code is not among the
  sources. It calls the visitor on the nodes in visit order, threading the context. The
  traversal hands the visitor the node; the visitor below reads only its reference, so
  the visitor is given the reference.
\<close>

definition doPreOrder ::
  "nat \<Rightarrow> stateTree \<Rightarrow> transform \<Rightarrow> 'c \<Rightarrow> (ref \<Rightarrow> stateTree \<Rightarrow> 'c \<Rightarrow> 'c) \<Rightarrow> 'c option" where
  "doPreOrder fuel tr root ctx f =
     map_option (\<lambda>order. fold (\<lambda>r c. f r tr c) order ctx) (preOrder fuel tr (ref root))"

text \<open>\<^verbatim>\<open>setVisibilityVisitor\<close> and \<^verbatim>\<open>setSubtreeVisibility\<close> of the source. The
  context is the pair of the state and the value to set; \<^verbatim>\<open>state.transforms.get(root)\<close>
  of a reference the tree does not hold gives the traversal nothing to start from.\<close>

definition setVisibilityVisitor :: "ref \<Rightarrow> stateTree \<Rightarrow> State \<times> bool \<Rightarrow> State \<times> bool" where
  "setVisibilityVisitor t tr ctx =
     (updateCellState (fst ctx) t (\<lambda>s. s\<lparr>isHidden := snd ctx\<rparr>), snd ctx)"

definition setSubtreeVisibility :: "nat \<Rightarrow> State \<Rightarrow> ref \<Rightarrow> bool \<Rightarrow> (error + State) option" where
  "setSubtreeVisibility fuel st root v =
     (case transforms (tree st) root of
        None \<Rightarrow> Some (Inl InvalidReference)
      | Some t \<Rightarrow>
          map_option (\<lambda>ctx. Inr (fst ctx))
            (doPreOrder fuel (tree st) t (st, v) setVisibilityVisitor))"

subsection \<open>Files, assets and the platform\<close>

text \<open>
  Strings and byte arrays are lists of characters. A \<^verbatim>\<open>File\<close> has a name and a
  content. An asset is its metadata record, of which the handlers read the
  \<^verbatim>\<open>id\<close>; the asset registry is enumerated as the list of its
  \<^verbatim>\<open>{ asset, file }\<close> pairs in iteration order.
\<close>

type_synonym bytes = string

record File =
  name :: string
  content :: bytes

record 'i asset =
  assetId :: string
  info :: 'i

text \<open>
  An object used as a dictionary with string keys, such as \<^verbatim>\<open>zipDataObj\<close> and the
  result of unzipping: the list of its properties in enumeration order. Assigning to a
  key the object has keeps the key's place and replaces the value; assigning to a new key
  appends it. (Keys that are array indices would be enumerated first; none of the keys
  written by the handlers is one.)
\<close>

type_synonym 'v jsObject = "(string \<times> 'v) list"

fun setProperty :: "'v jsObject \<Rightarrow> string \<Rightarrow> 'v \<Rightarrow> 'v jsObject" where
  "setProperty [] k v = [(k, v)]"
| "setProperty ((k', v') # ps) k v =
     (if k' = k then (k, v) # ps else (k', v') # setProperty ps k v)"

definition getProperty :: "'v jsObject \<Rightarrow> string \<Rightarrow> 'v option" where
  "getProperty obj k = map_of obj k"

text \<open>
  What the handlers take from the platform and from modules outside the sources, as
  parameters: \<^verbatim>\<open>JSON.stringify\<close> followed by the UTF-8 encoding, on a snapshot and
  on the list of \<^verbatim>\<open>[id, asset]\<close> pairs; \<^verbatim>\<open>JSON.parse\<close> of the text of
  \<^verbatim>\<open>state.json\<close> (\<^verbatim>\<open>None\<close> when it throws); \<^verbatim>\<open>JSON.parse\<close> of the text of
  \<^verbatim>\<open>assets.json\<close> together with the destructuring \<^verbatim>\<open>for (const [id, asset] of json)\<close>
  (\<^verbatim>\<open>None\<close> when parsing throws or the value cannot be iterated; an element
  \<^verbatim>\<open>None\<close> is one that cannot be destructured, where the loop throws);
  \<^verbatim>\<open>zip\<close> and reading a file as a zip archive (\<^verbatim>\<open>None\<close> when it fails); and
  \<^verbatim>\<open>getFormattedTime()\<close>.
\<close>

record ('s, 'i) platform =
  stringifySnapshot :: "'s \<Rightarrow> bytes"
  stringifyIndex :: "(string \<times> 'i asset) list \<Rightarrow> bytes"
  parseSnapshot :: "bytes \<Rightarrow> 's option"
  parseIndex :: "bytes \<Rightarrow> (string \<times> 'i asset) option list option"
  zipData :: "bytes jsObject \<Rightarrow> bytes"
  unzipData :: "bytes \<Rightarrow> bytes jsObject option"
  getFormattedTime :: string

text \<open>The effects of the snapshot handlers on their collaborators:
  \<^verbatim>\<open>ctx.managers.asset.set(asset, file)\<close>, where the file may be \<^verbatim>\<open>undefined\<close>;
  \<^verbatim>\<open>ctx.state.setSnapshot(snapshot)\<close>; and \<^verbatim>\<open>ctx.log.error\<close>.\<close>

datatype ('s, 'i) effect = AssetSet "'i asset" "File option" | SetSnapshot 's | LogError

subsection \<open>Snapshots: DownloadToFile\<close>

datatype downloadType = JsonType | ZipType

text \<open>The member name \<^verbatim>\<open>`assets/${asset.id}`\<close>.\<close>

definition assetMemberName :: "string \<Rightarrow> string" where
  "assetMemberName i = ''assets/'' @ i"

text \<open>The loop over \<^verbatim>\<open>ctx.managers.asset.assets\<close>: it pushes \<^verbatim>\<open>[asset.id, asset]\<close>
  and assigns the bytes of the file to the member of the asset.\<close>

fun packAssets ::
  "('i asset \<times> File) list \<Rightarrow> (string \<times> 'i asset) list \<times> bytes jsObject
   \<Rightarrow> (string \<times> 'i asset) list \<times> bytes jsObject" where
  "packAssets [] acc = acc"
| "packAssets ((a, f) # rest) (assets, obj) =
     packAssets rest
       (assets @ [(assetId a, a)], setProperty obj (assetMemberName (assetId a)) (content f))"

text \<open>The object handed to \<^verbatim>\<open>zip\<close>.\<close>

definition zipDataObj ::
  "('s, 'i) platform \<Rightarrow> 's \<Rightarrow> ('i asset \<times> File) list \<Rightarrow> bytes jsObject" where
  "zipDataObj pf snap registry =
     (let stateBytes = stringifySnapshot pf snap;
          (assets, obj) = packAssets registry ([], [(''state.json'', stateBytes)])
      in if length assets > 0 then setProperty obj ''assets.json'' (stringifyIndex pf assets)
         else obj)"

text \<open>The handler: the file it passes to \<^verbatim>\<open>download\<close>. An absent or empty name is
  replaced by the formatted time.\<close>

definition DownloadToFile ::
  "('s, 'i) platform \<Rightarrow> 's \<Rightarrow> ('i asset \<times> File) list \<Rightarrow> string option \<Rightarrow> downloadType \<Rightarrow> File" where
  "DownloadToFile pf snap registry nm type =
     (let json = stringifySnapshot pf snap;
          nm' = ''mol-star_state_'' @
                  (case nm of None \<Rightarrow> getFormattedTime pf
                   | Some n \<Rightarrow> if n = [] then getFormattedTime pf else n)
      in if type = JsonType then \<lparr>name = nm' @ ''.json'', content = json\<rparr>
         else \<lparr>name = nm' @ ''.zip'', content = zipData pf (zipDataObj pf snap registry)\<rparr>)"

subsection \<open>Snapshots: OpenFile\<close>

text \<open>
  The string operations of the handler. \<^verbatim>\<open>toLowerCase\<close> maps the letters
  \<^verbatim>\<open>A\<close> to \<^verbatim>\<open>Z\<close> to their lower-case forms and keeps every other character: the
  characters of this model are bytes, and no byte outside this range becomes one of the
  letters the handler compares with. \<^verbatim>\<open>indexOf\<close> answers \<^verbatim>\<open>-1\<close> when the
  character does not occur, and \<^verbatim>\<open>substring\<close> treats a negative start as zero.
\<close>

definition toLowerCaseChar :: "char \<Rightarrow> char" where
  "toLowerCaseChar c =
     (let n = (of_char c :: nat) in if 65 \<le> n \<and> n \<le> 90 then char_of (n + 32) else c)"

definition toLowerCase :: "string \<Rightarrow> string" where
  "toLowerCase s = map toLowerCaseChar s"

definition endsWith :: "string \<Rightarrow> string \<Rightarrow> bool" where
  "endsWith s search =
     (length search \<le> length s \<and> drop (length s - length search) s = search)"

fun indexOf :: "string \<Rightarrow> char \<Rightarrow> int" where
  "indexOf [] c = -1"
| "indexOf (x # xs) c =
     (if x = c then 0 else (let i = indexOf xs c in if i < 0 then -1 else i + 1))"

definition substring :: "string \<Rightarrow> int \<Rightarrow> string" where
  "substring s start = drop (nat (max 0 start)) s"

text \<open>\<^verbatim>\<open>const name = k.substring(k.indexOf('/') + 1)\<close>\<close>

definition assetName :: "string \<Rightarrow> string" where
  "assetName k = substring k (indexOf k CHR ''/'' + 1)"

text \<open>The callback of \<^verbatim>\<open>objectForEach(data, (v, k) => ...)\<close> and the dictionary
  \<^verbatim>\<open>assets\<close> it fills, which starts empty.\<close>

definition collectAsset :: "string \<times> bytes \<Rightarrow> (string \<rightharpoonup> File) \<Rightarrow> (string \<rightharpoonup> File)" where
  "collectAsset kv assets =
     (let k = fst kv; v = snd kv in
      if k = ''state.json'' \<or> k = ''assets.json'' then assets
      else (let nm = assetName k in assets(nm \<mapsto> \<lparr>name = nm, content = v\<rparr>)))"

definition collectAssets :: "bytes jsObject \<Rightarrow> (string \<rightharpoonup> File)" where
  "collectAssets data = fold collectAsset data Map.empty"

text \<open>The text read from \<^verbatim>\<open>new File([data['state.json']], 'state.json')\<close>: the bytes
  of the member, and the text \<^verbatim>\<open>undefined\<close> when the archive has no such member.\<close>

definition stateFileText :: "bytes jsObject \<Rightarrow> string" where
  "stateFileText data =
     (case getProperty data ''state.json'' of None \<Rightarrow> ''undefined'' | Some v \<Rightarrow> v)"

text \<open>The loop \<^verbatim>\<open>for (const [id, asset] of json) ctx.managers.asset.set(asset, assets[id])\<close>:
  the registrations made, and whether the loop ran to its end.\<close>

fun registerAssets ::
  "(string \<rightharpoonup> File) \<Rightarrow> (string \<times> 'i asset) option list \<Rightarrow> ('s, 'i) effect list \<times> bool" where
  "registerAssets assets [] = ([], True)"
| "registerAssets assets (None # rest) = ([], False)"
| "registerAssets assets (Some (i, a) # rest) =
     (let (es, ok) = registerAssets assets rest in (AssetSet a (assets i) # es, ok))"

text \<open>\<^verbatim>\<open>const snapshot = JSON.parse(...); return ctx.state.setSnapshot(snapshot)\<close>
  inside the \<^verbatim>\<open>try\<close>, whose \<^verbatim>\<open>catch\<close> logs.\<close>

definition applyState :: "('s, 'i) platform \<Rightarrow> bytes \<Rightarrow> ('s, 'i) effect list" where
  "applyState pf stateData =
     (case parseSnapshot pf stateData of
        None \<Rightarrow> [LogError]
      | Some snap \<Rightarrow> [SetSnapshot snap])"

text \<open>The two branches of the handler and the handler.\<close>

definition openJson :: "('s, 'i) platform \<Rightarrow> File \<Rightarrow> ('s, 'i) effect list" where
  "openJson pf f = applyState pf (content f)"

definition openArchive :: "('s, 'i) platform \<Rightarrow> File \<Rightarrow> ('s, 'i) effect list" where
  "openArchive pf f =
     (case unzipData pf (content f) of
        None \<Rightarrow> [LogError]
      | Some data \<Rightarrow>
          (let assets = collectAssets data;
               stateData = stateFileText data
           in case getProperty data ''assets.json'' of
                None \<Rightarrow> applyState pf stateData
              | Some idx \<Rightarrow>
                  (case parseIndex pf idx of
                     None \<Rightarrow> [LogError]
                   | Some json \<Rightarrow>
                       (let (es, ok) = registerAssets assets json
                        in if ok then es @ applyState pf stateData
                           else es @ [LogError]))))"

definition OpenFile :: "('s, 'i) platform \<Rightarrow> File \<Rightarrow> ('s, 'i) effect list" where
  "OpenFile pf f =
     (if endsWith (toLowerCase (name f)) ''json'' then openJson pf f else openArchive pf f)"




subsection \<open>Snapshots: Upload\<close>









subsection \<open>Snapshots: Apply\<close>

text \<open>
  Modelled from the spec: a snapshot entry, declared outside the sources, with its
  generated id and its payload, the snapshot data. A payload is an object, never a value
  that counts as false.
\<close>

record 's snapshotEntry =
  entryId :: string
  payload :: 's

text \<open>Modelled from the spec: the state of the snapshot manager, declared outside the
  sources: the ordered sequence of entries and the id of the current entry, if any.\<close>

record 's snapshotManager =
  entries :: "'s snapshotEntry list"
  current :: "string option"

text \<open>
  Modelled from the spec: \<^verbatim>\<open>setCurrent(id)\<close> of the snapshot manager, whose code is
  not among the sources. The spec has it return the entry's payload if found, else null,
  and mark the entry current.
\<close>

definition setCurrent :: "'s snapshotManager \<Rightarrow> string \<Rightarrow> 's option \<times> 's snapshotManager" where
  "setCurrent m i =
     (case find (\<lambda>e. entryId e = i) (entries m) of
        None \<Rightarrow> (None, m)
      | Some e \<Rightarrow> (Some (payload e), m\<lparr>current := Some i\<rparr>))"

text \<open>The handler of \<^verbatim>\<open>PluginCommands.State.Snapshots.Apply\<close>: the calls of
  \<^verbatim>\<open>setSnapshot\<close> it makes and the snapshot manager it leaves.\<close>

definition Apply :: "'s snapshotManager \<Rightarrow> string \<Rightarrow> ('s, 'i) effect list \<times> 's snapshotManager" where
  "Apply m i =
     (let (snapshot, m') = setCurrent m i
      in case snapshot of
           None \<Rightarrow> ([], m')
         | Some s \<Rightarrow> ([SetSnapshot s], m'))"

section \<open>Notions used in the statements\<close>

subsection \<open>Walking up the tree\<close>

text \<open>The node reached from a node by following parent references \<^verbatim>\<open>n\<close> times.\<close>

fun ancestor :: "stateTree \<Rightarrow> nat \<Rightarrow> transform \<Rightarrow> transform option" where
  "ancestor tr 0 c = Some c"
| "ancestor tr (Suc n) c =
     (case transforms tr (parent c) of None \<Rightarrow> None | Some p \<Rightarrow> ancestor tr n p)"

text \<open>A node that reaches the root in \<^verbatim>\<open>n\<close> steps, each node on the way being listed
  among the children of its parent, as the tree invariant has it.\<close>

fun rootPath :: "stateTree \<Rightarrow> nat \<Rightarrow> transform \<Rightarrow> bool" where
  "rootPath tr 0 c = (parent c = ref c)"
| "rootPath tr (Suc n) c =
     (parent c \<noteq> ref c
      \<and> (case children tr (parent c) of None \<Rightarrow> False | Some cs \<Rightarrow> ref c \<in> set cs)
      \<and> (case transforms tr (parent c) of None \<Rightarrow> False | Some p \<Rightarrow> rootPath tr n p))"


text \<open>A path to the root on which every parent is stored under its own reference.\<close>

fun keyedPath :: "stateTree \<Rightarrow> nat \<Rightarrow> transform \<Rightarrow> bool" where
  "keyedPath tr 0 c = True"
| "keyedPath tr (Suc n) c =
     (case transforms tr (parent c) of
        None \<Rightarrow> False
      | Some p \<Rightarrow> ref p = parent c \<and> keyedPath tr n p)"

text \<open>
  The walk in the words of the spec, to compare the handler with: go up while the
  immediate parent is not the tree root, has exactly one child and is flagged as a ghost;
  the reference to remove is where the walk stops. The first argument bounds the number
  of steps.
\<close>

fun spec_removeWithGhostCascade :: "nat \<Rightarrow> stateTree \<Rightarrow> ref \<Rightarrow> ref" where
  "spec_removeWithGhostCascade 0 tr r = r"
| "spec_removeWithGhostCascade (Suc n) tr r =
     (case transforms tr r of
        None \<Rightarrow> r
      | Some t \<Rightarrow>
          (case transforms tr (parent t) of
             None \<Rightarrow> r
           | Some p \<Rightarrow>
               if parent p \<noteq> ref p
                  \<and> (case children tr (ref p) of None \<Rightarrow> False | Some cs \<Rightarrow> length cs = 1)
                  \<and> isGhost (state p)
               then spec_removeWithGhostCascade n tr (ref p)
               else r))"

subsection \<open>Cells and archive members\<close>

text \<open>A cell with its \<^verbatim>\<open>isHidden\<close> flag set to a value.\<close>

definition setHidden :: "bool \<Rightarrow> cell \<Rightarrow> cell" where
  "setHidden v c = c\<lparr>cellState := (cellState c)\<lparr>isHidden := v\<rparr>\<rparr>"

text \<open>The archive member and the index entry of a registered asset.\<close>

definition assetMember :: "'i asset \<times> File \<Rightarrow> string \<times> bytes" where
  "assetMember af = (assetMemberName (assetId (fst af)), content (snd af))"

definition assetEntry :: "'i asset \<times> File \<Rightarrow> string \<times> 'i asset" where
  "assetEntry af = (assetId (fst af), fst af)"

text \<open>The files made from the members of an archive other than \<^verbatim>\<open>state.json\<close> and
  \<^verbatim>\<open>assets.json\<close>, each under its key, in the order of the members.\<close>

definition assetFiles :: "bytes jsObject \<Rightarrow> (string \<times> File) list" where
  "assetFiles data =
     map (\<lambda>kv. (assetName (fst kv), \<lparr>name = assetName (fst kv), content = snd kv\<rparr>))
       (filter (\<lambda>kv. fst kv \<noteq> ''state.json'' \<and> fst kv \<noteq> ''assets.json'') data)"

text \<open>The registration of an index entry with the file collected under its id, and the
  registration that restores a packaged asset.\<close>

definition registration :: "(string \<rightharpoonup> File) \<Rightarrow> string \<times> 'i asset \<Rightarrow> ('s, 'i) effect" where
  "registration assets p = AssetSet (snd p) (assets (fst p))"


section \<open>Example data\<close>

subsection \<open>Trees and states\<close>

definition mkTransform :: "ref \<Rightarrow> ref \<Rightarrow> bool \<Rightarrow> transform" where
  "mkTransform r p g =
     \<lparr>ref = r, parent = p, state = \<lparr>isGhost = g, isHidden = False, isCollapsed = False\<rparr>\<rparr>"

text \<open>The chain root, ghost \<^verbatim>\<open>G1\<close>, ghost \<^verbatim>\<open>G2\<close>, leaf \<^verbatim>\<open>L\<close>.\<close>

definition chainTree :: stateTree where
  "chainTree =
     \<lparr>transforms = [''root'' \<mapsto> mkTransform ''root'' ''root'' False,
                     ''G1'' \<mapsto> mkTransform ''G1'' ''root'' True,
                     ''G2'' \<mapsto> mkTransform ''G2'' ''G1'' True,
                     ''L'' \<mapsto> mkTransform ''L'' ''G2'' False],
      children = [''root'' \<mapsto> [''G1''], ''G1'' \<mapsto> [''G2''], ''G2'' \<mapsto> [''L''],
                  ''L'' \<mapsto> []]\<rparr>"



definition mkCell :: "bool \<Rightarrow> cell" where
  "mkCell h = \<lparr>cellState = \<lparr>isGhost = False, isHidden = h, isCollapsed = False\<rparr>\<rparr>"

definition chainState :: State where
  "chainState =
     \<lparr>tree = chainTree,
      cells = [''root'' \<mapsto> mkCell False, ''G1'' \<mapsto> mkCell False, ''G2'' \<mapsto> mkCell False,
               ''L'' \<mapsto> mkCell False]\<rparr>"

definition chainRank :: "ref \<Rightarrow> nat" where
  "chainRank r = (if r = ''root'' then 3 else if r = ''G1'' then 2 else if r = ''G2'' then 1 else 0)"

subsection \<open>A platform, a registry and archives\<close>

text \<open>
  A platform instance on which the handlers are evaluated: snapshots are their own JSON
  text, and the JSON and archive functions answer the inputs of the examples.
\<close>

definition demoAsset1 :: "string asset" where
  "demoAsset1 = \<lparr>assetId = ''a1'', info = ''1cbs.cif''\<rparr>"

definition demoAsset2 :: "string asset" where
  "demoAsset2 = \<lparr>assetId = ''a2'', info = ''emd.map''\<rparr>"

definition demoRegistry :: "(string asset \<times> File) list" where
  "demoRegistry =
     [(demoAsset1, \<lparr>name = ''1cbs.cif'', content = ''DATA1''\<rparr>),
      (demoAsset2, \<lparr>name = ''emd.map'', content = ''DATA2''\<rparr>)]"

definition demoBundle :: "bytes jsObject" where
  "demoBundle =
     [(''state.json'', ''{}''), (''assets/a1'', ''DATA1''), (''assets/a2'', ''DATA2''),
      (''assets.json'', ''a1;a2;'')]"

text \<open>An archive whose \<^verbatim>\<open>state.json\<close> is cut short.\<close>

definition brokenBundle :: "bytes jsObject" where
  "brokenBundle =
     [(''state.json'', ''{''), (''assets/a1'', ''DATA1''), (''assets.json'', ''a1;'')]"

text \<open>An archive whose \<^verbatim>\<open>assets.json\<close> lists an asset that has no member, and an
  archive that has no \<^verbatim>\<open>state.json\<close>.\<close>

definition memberlessBundle :: "bytes jsObject" where
  "memberlessBundle = [(''state.json'', ''{}''), (''assets.json'', ''a1;'')]"

definition statelessBundle :: "bytes jsObject" where
  "statelessBundle = [(''assets/a1'', ''DATA1''), (''assets.json'', ''a1;'')]"

definition demoPlatform :: "(string, string) platform" where
  "demoPlatform =
     \<lparr>stringifySnapshot = (\<lambda>s. s),
      stringifyIndex = (\<lambda>es. concat (map (\<lambda>e. fst e @ '';'') es)),
      parseSnapshot = (\<lambda>b. if b = ''{}'' then Some ''{}'' else None),
      parseIndex = (\<lambda>b. if b = ''a1;a2;'' then Some [Some (''a1'', demoAsset1), Some (''a2'', demoAsset2)]
                        else if b = ''a1;'' then Some [Some (''a1'', demoAsset1)]
                        else None),
      zipData = (\<lambda>obj. if obj = demoBundle then ''PK-demo'' else ''PK''),
      unzipData = (\<lambda>b. if b = ''PK-demo'' then Some demoBundle
                       else if b = ''PK-broken'' then Some brokenBundle
                       else if b = ''PK-memberless'' then Some memberlessBundle
                       else if b = ''PK-stateless'' then Some statelessBundle
                       else None),
      getFormattedTime = ''2020-01-01''\<rparr>"

definition demoArchive :: File where
  "demoArchive = \<lparr>name = ''mol-star_state_2020-01-01.zip'', content = ''PK-demo''\<rparr>"





section \<open>SyncBehaviors: behaviours follow the lifecycle of their objects\<close>

text \<open>
  Claim C2. A \<^verbatim>\<open>created\<close> event with a behaviour object registers it against the
  event's reference; a \<^verbatim>\<open>removed\<close> event with a behaviour object unregisters it; a
  \<^verbatim>\<open>recreate\<close> update unregisters the old behaviour (when there is one) and then
  registers the new one (when there is one), in this order; nothing is called for an object
  that is not a behaviour, nor for an in-place update.
\<close>

theorem SyncBehaviors_calls:
  "SyncBehaviors (Created r (Behavior b)) = [Register b r]
   \<and> SyncBehaviors (Removed r (Behavior b)) = [Unregister b]
   \<and> SyncBehaviors (Updated Recreate r (Some (Behavior b)) (Some (Behavior b'))) =
       [Unregister b, Register b' r]
   \<and> SyncBehaviors (Updated Recreate r (Some (Behavior b)) None) = [Unregister b]
   \<and> SyncBehaviors (Updated Recreate r (Some (Behavior b)) (Some (NonBehavior y))) =
       [Unregister b]
   \<and> SyncBehaviors (Updated Recreate r None (Some (Behavior b'))) = [Register b' r]
   \<and> SyncBehaviors (Updated Recreate r (Some (NonBehavior x)) (Some (Behavior b'))) =
       [Register b' r]
   \<and> SyncBehaviors (Updated Recreate r None None) = []
   \<and> SyncBehaviors (Updated Recreate r None (Some (NonBehavior y))) = []
   \<and> SyncBehaviors (Updated Recreate r (Some (NonBehavior x)) None) = []
   \<and> SyncBehaviors (Updated Recreate r (Some (NonBehavior x)) (Some (NonBehavior y))) = []
   \<and> SyncBehaviors (Created r (NonBehavior x)) = []
   \<and> SyncBehaviors (Removed r (NonBehavior x)) = []
   \<and> SyncBehaviors (Updated InPlace r oldObj obj) = []"
  by (simp add: unregisterOld_def registerNew_def)

section \<open>RemoveObject: removal with ghost parents\<close>



text \<open>On a tree whose root is not flagged as a ghost, the loop removes what the walk of
  the spec removes.\<close>

lemma rootPath_root: "rootPath tr n c \<Longrightarrow> parent c = ref c \<Longrightarrow> n = 0"
  by (cases n) auto

lemma ghostLoop_refines_spec:
  assumes "rootPath tr n c" and "keyedPath tr n c" and "transforms tr (ref c) = Some c"
    and "ancestor tr n c = Some rt" and "\<not> isGhost (state rt)"
  shows "ghostLoop remove tr c = Some (Inr (remove (spec_removeWithGhostCascade n tr (ref c))))"
  using assms
proof (induction n arbitrary: c)
  case 0
  then have "parent c = ref c" by simp
  then show ?case by (subst ghostLoop.simps) simp
next
  case (Suc n)
  from Suc.prems(1) obtain cs p where
    nr: "parent c \<noteq> ref c" and
    cs: "children tr (parent c) = Some cs" "ref c \<in> set cs" and
    p: "transforms tr (parent c) = Some p" "rootPath tr n p"
    by (auto split: option.splits)
  from Suc.prems(2) p(1) have key: "ref p = parent c" "keyedPath tr n p" by auto
  from Suc.prems(4) p(1) have anc: "ancestor tr n p = Some rt" by simp
  have pos: "length cs \<ge> 1" using cs(2) by (cases cs) auto
  have self: "transforms tr (ref p) = Some p" using p(1) key(1) by simp
  show ?case
  proof (cases "length cs = 1 \<and> isGhost (state p)")
    case False
    then have stop: "length cs > 1 \<or> \<not> isGhost (state p)" using pos by auto
    have "ghostLoop remove tr c = Some (Inr (remove (ref c)))"
      using stop by (subst ghostLoop.simps) (auto simp: nr cs p)
    moreover have "spec_removeWithGhostCascade (Suc n) tr (ref c) = ref c"
      using False by (auto simp: Suc.prems(3) p(1) key(1) cs(1))
    ultimately show ?thesis by simp
  next
    case True
    have notroot: "parent p \<noteq> ref p"
    proof
      assume r: "parent p = ref p"
      with p(2) have "n = 0" by (rule rootPath_root)
      with anc have "rt = p" by simp
      with True Suc.prems(5) show False by simp
    qed
    have step: "ghostLoop remove tr c = ghostLoop remove tr p"
      using True by (subst ghostLoop.simps) (simp add: nr cs p)
    have "spec_removeWithGhostCascade (Suc n) tr (ref c) = spec_removeWithGhostCascade n tr (ref p)"
      using True notroot by (simp add: Suc.prems(3) p(1) key(1) cs(1))
    moreover have "ghostLoop remove tr p =
        Some (Inr (remove (spec_removeWithGhostCascade n tr (ref p))))"
      by (rule Suc.IH[OF p(2) key(2) self anc Suc.prems(5)])
    ultimately show ?thesis using step by simp
  qed
qed

lemma RemoveObject_refines_spec:
  assumes "transforms tr L = Some c" and "ref c = L"
    and "rootPath tr n c" and "keyedPath tr n c"
    and "ancestor tr n c = Some rt" and "\<not> isGhost (state rt)"
  shows "RemoveObject remove tr L True =
           Some (Inr (remove (spec_removeWithGhostCascade n tr L)))"
proof -
  have "RemoveObject remove tr L True = ghostLoop remove tr c"
  proof (cases "parent c = L")
    case True
    have "ghostLoop remove tr c = Some (Inr (remove L))"
      by (subst ghostLoop.simps) (simp add: True assms(2))
    then show ?thesis using assms(1) True by (simp add: RemoveObject_def)
  next
    case False
    then show ?thesis using assms(1) by (simp add: RemoveObject_def)
  qed
  moreover have "transforms tr (ref c) = Some c" using assms(1,2) by simp
  ultimately show ?thesis
    using ghostLoop_refines_spec[OF assms(3,4) _ assms(5,6), of remove] assms(2) by simp
qed






lemma spec_chainTree_L: "spec_removeWithGhostCascade 4 chainTree ''L'' = ''G1''"
  by (simp add: eval_nat_numeral chainTree_def mkTransform_def)




section \<open>Subtree visibility\<close>

text \<open>The traversal: more fuel does not change its result, a tree whose children have
  smaller rank than their parents lets it return, and it visits the subtree of its root,
  the root first.\<close>

lemma those_map_Some_iff:
  "those (map f xs) = Some ys \<longleftrightarrow> list_all2 (\<lambda>x y. f x = Some y) xs ys"
proof (induction xs arbitrary: ys)
  case Nil
  then show ?case by auto
next
  case (Cons x xs)
  then show ?case
    by (cases ys) (auto split: option.splits)
qed

lemma list_all2_right_ex: "list_all2 P xs ys \<Longrightarrow> y \<in> set ys \<Longrightarrow> \<exists>x\<in>set xs. P x y"
  by (induction rule: list_all2_induct) auto

lemma list_all2_left_ex: "list_all2 P xs ys \<Longrightarrow> x \<in> set xs \<Longrightarrow> \<exists>y\<in>set ys. P x y"
  by (induction rule: list_all2_induct) auto

lemma preOrder_mono:
  "preOrder n tr r = Some xs \<Longrightarrow> n \<le> m \<Longrightarrow> preOrder m tr r = Some xs"
proof (induction n arbitrary: m r xs)
  case 0
  then show ?case by simp
next
  case (Suc n)
  then obtain m' where m: "m = Suc m'" "n \<le> m'" by (cases m) auto
  show ?case
  proof (cases "children tr r")
    case None
    with Suc.prems m show ?thesis by simp
  next
    case (Some cs)
    with Suc.prems obtain ys where
      ys: "those (map (preOrder n tr) cs) = Some ys" "xs = r # concat ys"
      by auto
    then have "list_all2 (\<lambda>x y. preOrder n tr x = Some y) cs ys"
      by (simp add: those_map_Some_iff)
    then have "list_all2 (\<lambda>x y. preOrder m' tr x = Some y) cs ys"
      by (rule list_all2_mono) (use Suc.IH m(2) in blast)
    then have "those (map (preOrder m' tr) cs) = Some ys"
      by (simp add: those_map_Some_iff)
    with Some ys m show ?thesis by simp
  qed
qed

lemma preOrder_returns:
  assumes acyclic: "\<forall>r cs c. children tr r = Some cs \<longrightarrow> c \<in> set cs \<longrightarrow> rank c < (rank r :: nat)"
  shows "rank r < n \<Longrightarrow> \<exists>xs. preOrder n tr r = Some xs"
proof (induction n arbitrary: r)
  case 0
  then show ?case by simp
next
  case (Suc n)
  show ?case
  proof (cases "children tr r")
    case None
    then show ?thesis by simp
  next
    case (Some cs)
    have "\<forall>c\<in>set cs. \<exists>ys. preOrder n tr c = Some ys"
    proof
      fix c assume "c \<in> set cs"
      with acyclic Some have "rank c < rank r" by blast
      with Suc.prems have "rank c < n" by simp
      then show "\<exists>ys. preOrder n tr c = Some ys" by (rule Suc.IH)
    qed
    then have "\<exists>ys. list_all2 (\<lambda>x y. preOrder n tr x = Some y) cs ys"
      by (induction cs) (auto simp: list_all2_Cons1)
    then obtain ys where "those (map (preOrder n tr) cs) = Some ys"
      by (auto simp: those_map_Some_iff)
    with Some show ?thesis by simp
  qed
qed

lemma preOrder_subset:
  "preOrder n tr r = Some xs \<Longrightarrow> set xs \<subseteq> subtree tr r"
proof (induction n arbitrary: r xs)
  case 0
  then show ?case by simp
next
  case (Suc n)
  show ?case
  proof (cases "children tr r")
    case None
    with Suc.prems show ?thesis by (auto intro: subtree_root)
  next
    case (Some cs)
    with Suc.prems obtain ys where
      ys: "list_all2 (\<lambda>x y. preOrder n tr x = Some y) cs ys" "xs = r # concat ys"
      by (auto simp: those_map_Some_iff)
    have "set y \<subseteq> subtree tr r" if "y \<in> set ys" for y
    proof -
      from list_all2_right_ex[OF ys(1) that]
      obtain c where c: "c \<in> set cs" "preOrder n tr c = Some y" by blast
      have "set y \<subseteq> subtree tr c" using c(2) by (rule Suc.IH)
      moreover have "subtree tr c \<subseteq> subtree tr r"
      proof
        fix x assume "x \<in> subtree tr c"
        then show "x \<in> subtree tr r"
        proof (induction rule: subtree.induct)
          case subtree_root
          show ?case by (rule subtree.subtree_child[OF subtree.subtree_root Some c(1)])
        next
          case (subtree_child x cs' c')
          then show ?case by (blast intro: subtree.subtree_child)
        qed
      qed
      ultimately show ?thesis by blast
    qed
    with ys(2) show ?thesis by (auto intro: subtree_root)
  qed
qed

lemma preOrder_head: "preOrder n tr r = Some xs \<Longrightarrow> \<exists>rest. xs = r # rest"
  by (cases n) (auto split: option.splits)

lemma preOrder_closed:
  "preOrder n tr r = Some xs \<Longrightarrow> x \<in> set xs \<Longrightarrow> children tr x = Some cs \<Longrightarrow> c \<in> set cs
   \<Longrightarrow> c \<in> set xs"
proof (induction n arbitrary: r xs)
  case 0
  then show ?case by simp
next
  case (Suc n)
  show ?case
  proof (cases "children tr r")
    case None
    with Suc.prems show ?thesis by auto
  next
    case (Some rs)
    with Suc.prems obtain ys where
      ys: "list_all2 (\<lambda>x y. preOrder n tr x = Some y) rs ys" "xs = r # concat ys"
      by (auto simp: those_map_Some_iff)
    have sub: "\<exists>y\<in>set ys. preOrder n tr k = Some y" if "k \<in> set rs" for k
      using list_all2_left_ex[OF ys(1) that] by blast
    show ?thesis
    proof (cases "x = r")
      case True
      with Some Suc.prems have "c \<in> set rs" by simp
      from sub[OF this] obtain y where y: "y \<in> set ys" "preOrder n tr c = Some y" by blast
      from preOrder_head[OF y(2)] have "c \<in> set y" by auto
      with y(1) ys(2) show ?thesis by auto
    next
      case False
      with Suc.prems(2) ys(2) obtain y where y: "y \<in> set ys" "x \<in> set y" by auto
      from list_all2_right_ex[OF ys(1) y(1)]
      obtain k where k: "k \<in> set rs" "preOrder n tr k = Some y" by blast
      have "c \<in> set y" by (rule Suc.IH[OF k(2) y(2) Suc.prems(3,4)])
      with y(1) ys(2) show ?thesis by auto
    qed
  qed
qed

lemma preOrder_set: "preOrder n tr r = Some xs \<Longrightarrow> set xs = subtree tr r"
proof
  assume p: "preOrder n tr r = Some xs"
  then show "set xs \<subseteq> subtree tr r" by (rule preOrder_subset)
  show "subtree tr r \<subseteq> set xs"
  proof
    fix x assume "x \<in> subtree tr r"
    then show "x \<in> set xs"
    proof (induction rule: subtree.induct)
      case subtree_root
      from preOrder_head[OF p] show ?case by auto
    next
      case (subtree_child x cs c)
      then show ?case using preOrder_closed[OF p] by blast
    qed
  qed
qed

text \<open>The fold of the visitor over the visit order.\<close>

lemma setHidden_idem: "setHidden v (setHidden v c) = setHidden v c"
  by (simp add: setHidden_def)

lemma updateCellState_isHidden:
  "tree (updateCellState st r (\<lambda>s. s\<lparr>isHidden := v\<rparr>)) = tree st"
  "cells (updateCellState st r (\<lambda>s. s\<lparr>isHidden := v\<rparr>)) =
     (cells st)(r := map_option (setHidden v) (cells st r))"
  by (auto simp: updateCellState_def setHidden_def split: option.splits)

lemma fold_setVisibilityVisitor:
  "fold (\<lambda>r c. setVisibilityVisitor r tr c) order (st, v) =
     (fold (\<lambda>r s. updateCellState s r (\<lambda>s. s\<lparr>isHidden := v\<rparr>)) order st, v)"
  by (induction order arbitrary: st) (simp_all add: setVisibilityVisitor_def)

lemma fold_updateCellState:
  "tree (fold (\<lambda>r s. updateCellState s r (\<lambda>s. s\<lparr>isHidden := v\<rparr>)) order st) = tree st
   \<and> cells (fold (\<lambda>r s. updateCellState s r (\<lambda>s. s\<lparr>isHidden := v\<rparr>)) order st) =
       (\<lambda>r. if r \<in> set order then map_option (setHidden v) (cells st r) else cells st r)"
proof (induction order arbitrary: st)
  case Nil
  show ?case by simp
next
  case (Cons x xs)
  let ?st1 = "updateCellState st x (\<lambda>s. s\<lparr>isHidden := v\<rparr>)"
  from Cons.IH[of ?st1] show ?case
    by (auto simp: updateCellState_isHidden fun_eq_iff option.map_comp comp_def setHidden_idem)
qed

text \<open>
  Claim C3. For a tree without cycles (the children of a node have smaller rank than the
  node) and a node \<^verbatim>\<open>root\<close> in it, \<^verbatim>\<open>setSubtreeVisibility\<close> returns for every
  fuel above the rank of the root, with the same result: the visit order is the pre-order
  of the subtree, starting at \<^verbatim>\<open>root\<close> and covering exactly the subtree; the new state
  is the fold of \<^verbatim>\<open>updateCellState\<close> over this one order; the tree is unchanged; the
  cell of the root and of every descendant has \<^verbatim>\<open>isHidden\<close> set to the value, no cell
  outside the subtree changes; and running it again on the result changes nothing.
\<close>

theorem setSubtreeVisibility_subtree:
  assumes present: "transforms (tree st) root = Some t" "ref t = root"
    and acyclic: "\<forall>r cs c. children (tree st) r = Some cs \<longrightarrow> c \<in> set cs \<longrightarrow> rank c < (rank r :: nat)"
  shows "\<exists>st' order.
           (\<forall>n>rank root.
              preOrder n (tree st) root = Some order
              \<and> setSubtreeVisibility n st root v = Some (Inr st')
              \<and> setSubtreeVisibility n st' root v = Some (Inr st'))
           \<and> hd order = root \<and> set order = subtree (tree st) root
           \<and> st' = fold (\<lambda>r s. updateCellState s r (\<lambda>s. s\<lparr>isHidden := v\<rparr>)) order st
           \<and> tree st' = tree st
           \<and> (\<forall>r. cells st' r =
                 (if r \<in> subtree (tree st) root then map_option (setHidden v) (cells st r)
                  else cells st r))"
proof -
  let ?upd = "\<lambda>r s. updateCellState s r (\<lambda>s. s\<lparr>isHidden := v\<rparr>)"
  from preOrder_returns[OF acyclic, of root "Suc (rank root)"]
  obtain order where order: "preOrder (Suc (rank root)) (tree st) root = Some order" by auto
  define st' where "st' = fold ?upd order st"
  have all: "preOrder n (tree st) root = Some order" if "rank root < n" for n
    using preOrder_mono[OF order, of n] that by simp
  have sub: "set order = subtree (tree st) root" by (rule preOrder_set[OF order])
  have hd: "hd order = root" using preOrder_head[OF order] by auto
  have tree': "tree st' = tree st" and
    cells': "cells st' = (\<lambda>r. if r \<in> set order then map_option (setHidden v) (cells st r)
                               else cells st r)"
    using fold_updateCellState[of v order st] by (simp_all add: st'_def)
  have run: "setSubtreeVisibility n s root v = Some (Inr (fold ?upd order s))"
    if "rank root < n" "tree s = tree st" for n s
    using all[OF that(1)] present that(2)
    by (simp add: setSubtreeVisibility_def doPreOrder_def fold_setVisibilityVisitor)
  have again: "fold ?upd order st' = st'"
  proof -
    have "tree (fold ?upd order st') = tree st'"
      using fold_updateCellState[of v order st'] by simp
    moreover have "cells (fold ?upd order st') = cells st'"
      using fold_updateCellState[of v order st']
      by (auto simp: cells' fun_eq_iff option.map_comp comp_def setHidden_idem)
    ultimately show ?thesis by simp
  qed
  have "\<forall>n>rank root.
          preOrder n (tree st) root = Some order
          \<and> setSubtreeVisibility n st root v = Some (Inr st')
          \<and> setSubtreeVisibility n st' root v = Some (Inr st')"
    using all run[of _ st] run[of _ st'] tree' again by (simp add: st'_def)
  moreover have "\<forall>r. cells st' r =
      (if r \<in> subtree (tree st) root then map_option (setHidden v) (cells st r) else cells st r)"
    using cells' sub by simp
  ultimately show ?thesis using hd sub tree' st'_def by blast
qed

text \<open>The theorem on the chain, hiding the subtree of \<^verbatim>\<open>G1\<close>: the three nodes below
  the root are hidden, the root is not.\<close>

theorem setSubtreeVisibility_subtree_witness:
  "transforms (tree chainState) ''G1'' = Some (mkTransform ''G1'' ''root'' True)
   \<and> ref (mkTransform ''G1'' ''root'' True) = ''G1''
   \<and> (\<exists>st'. setSubtreeVisibility 3 chainState ''G1'' True = Some (Inr st')
         \<and> setSubtreeVisibility 3 st' ''G1'' True = Some (Inr st')
         \<and> preOrder 3 (tree chainState) ''G1'' = Some [''G1'', ''G2'', ''L'']
         \<and> cells st' ''root'' = Some (mkCell False)
         \<and> cells st' ''G1'' = Some (mkCell True)
         \<and> cells st' ''G2'' = Some (mkCell True)
         \<and> cells st' ''L'' = Some (mkCell True))"
proof -
  have h1: "transforms (tree chainState) ''G1'' = Some (mkTransform ''G1'' ''root'' True)"
    by (simp add: chainState_def chainTree_def)
  have h2: "ref (mkTransform ''G1'' ''root'' True) = ''G1''" by (simp add: mkTransform_def)
  have h3: "\<forall>r cs c. children (tree chainState) r = Some cs \<longrightarrow> c \<in> set cs \<longrightarrow>
      chainRank c < chainRank r"
    by (auto simp: chainState_def chainTree_def chainRank_def split: if_splits)
  have po: "preOrder 3 (tree chainState) ''G1'' = Some [''G1'', ''G2'', ''L'']"
    by (simp add: eval_nat_numeral chainState_def chainTree_def)
  from setSubtreeVisibility_subtree[OF h1 h2 h3, of True] obtain st' order where
    r: "\<forall>n>chainRank ''G1''. preOrder n (tree chainState) ''G1'' = Some order
          \<and> setSubtreeVisibility n chainState ''G1'' True = Some (Inr st')
          \<and> setSubtreeVisibility n st' ''G1'' True = Some (Inr st')"
       "set order = subtree (tree chainState) ''G1''"
       "\<forall>r. cells st' r =
          (if r \<in> subtree (tree chainState) ''G1'' then map_option (setHidden True) (cells chainState r)
           else cells chainState r)"
    by blast
  have "chainRank ''G1'' < 3" by (simp add: chainRank_def)
  with r(1) have r3: "preOrder 3 (tree chainState) ''G1'' = Some order"
    "setSubtreeVisibility 3 chainState ''G1'' True = Some (Inr st')"
    "setSubtreeVisibility 3 st' ''G1'' True = Some (Inr st')"
    by blast+
  from r3(1) po have "order = [''G1'', ''G2'', ''L'']" by simp
  with r(2) have sub: "subtree (tree chainState) ''G1'' = {''G1'', ''G2'', ''L''}" by auto
  have cs: "cells st' ''root'' = Some (mkCell False)" "cells st' ''G1'' = Some (mkCell True)"
    "cells st' ''G2'' = Some (mkCell True)" "cells st' ''L'' = Some (mkCell True)"
    using r(3) unfolding sub by (simp_all add: chainState_def setHidden_def mkCell_def)
  from h1 h2 r3 po cs show ?thesis by blast
qed

section \<open>Snapshots: packaging an archive\<close>

text \<open>Assignment to a property, and the effect of the asset loop on the list of index
  entries and on the keys of the object.\<close>

lemma setProperty_fresh: "k \<notin> fst ` set obj \<Longrightarrow> setProperty obj k v = obj @ [(k, v)]"
  by (induction obj) auto

lemma keys_setProperty:
  "map fst (setProperty obj k v) =
     (if k \<in> fst ` set obj then map fst obj else map fst obj @ [k])"
  by (induction obj) force+

lemma packAssets_entries:
  "fst (packAssets registry (assets, obj)) = assets @ map assetEntry registry"
  by (induction registry arbitrary: assets obj) (auto simp: assetEntry_def)

lemma packAssets_keys:
  "\<exists>ks. map fst (snd (packAssets registry (assets, obj))) = map fst obj @ ks
        \<and> set ks = set (map (fst \<circ> assetMember) registry) - set (map fst obj)
        \<and> distinct ks"
proof (induction registry arbitrary: assets obj)
  case Nil
  show ?case by simp
next
  case (Cons af registry)
  obtain a f where af: "af = (a, f)" by (cases af)
  define k where "k = assetMemberName (assetId a)"
  define obj' where "obj' = setProperty obj k (content f)"
  define R where "R = set (map (fst \<circ> assetMember) registry)"
  define K where "K = set (map fst obj)"
  have step: "packAssets (af # registry) (assets, obj) =
      packAssets registry (assets @ [(assetId a, a)], obj')"
    by (simp add: af k_def obj'_def)
  have kaf: "(fst \<circ> assetMember) af = k" by (simp add: af assetMember_def k_def)
  from Cons.IH[of "assets @ [(assetId a, a)]" obj'] obtain ks where
    ks: "map fst (snd (packAssets registry (assets @ [(assetId a, a)], obj'))) = map fst obj' @ ks"
        "set ks = R - set (map fst obj')" "distinct ks"
    unfolding R_def by blast
  have keys': "map fst obj' = (if k \<in> K then map fst obj else map fst obj @ [k])"
    unfolding obj'_def K_def by (simp add: keys_setProperty)
  have goalset: "set (map (fst \<circ> assetMember) (af # registry)) - set (map fst obj) = insert k R - K"
    unfolding R_def K_def using kaf by simp
  show ?case
  proof (cases "k \<in> K")
    case True
    with keys' have e: "map fst obj' = map fst obj" by simp
    have "set ks = insert k R - K" using ks(2) True unfolding e K_def by auto
    with ks(1,3) e show ?thesis unfolding step goalset by (intro exI[of _ ks]) simp
  next
    case False
    with keys' have e: "map fst obj' = map fst obj @ [k]" by simp
    have "set (k # ks) = insert k R - K" using ks(2) False unfolding e K_def by auto
    moreover have "distinct (k # ks)" using ks(2,3) unfolding e by auto
    moreover have "map fst (snd (packAssets registry (assets @ [(assetId a, a)], obj'))) =
        map fst obj @ (k # ks)"
      using ks(1) e by simp
    ultimately show ?thesis unfolding step goalset by (intro exI[of _ "k # ks"]) simp
  qed
qed

lemma packAssets_distinct:
  "distinct (map (assetId \<circ> fst) registry)
   \<Longrightarrow> set (map (fst \<circ> assetMember) registry) \<inter> set (map fst obj) = {}
   \<Longrightarrow> snd (packAssets registry (assets, obj)) = obj @ map assetMember registry"
proof (induction registry arbitrary: assets obj)
  case Nil
  show ?case by simp
next
  case (Cons af registry)
  obtain a f where af: "af = (a, f)" by (cases af)
  define k where "k = assetMemberName (assetId a)"
  have step: "packAssets (af # registry) (assets, obj) =
      packAssets registry (assets @ [(assetId a, a)], setProperty obj k (content f))"
    by (simp add: af k_def)
  have m: "assetMember af = (k, content f)" by (simp add: af assetMember_def k_def)
  have fresh: "k \<notin> fst ` set obj" using Cons.prems(2) m by auto
  then have obj': "setProperty obj k (content f) = obj @ [(k, content f)]"
    by (rule setProperty_fresh)
  have inj: "assetMemberName i = assetMemberName j \<longleftrightarrow> i = j" for i j
    by (simp add: assetMemberName_def)
  have "assetId a \<notin> (assetId \<circ> fst) ` set registry"
    using Cons.prems(1) by (simp add: af)
  then have "k \<notin> set (map (fst \<circ> assetMember) registry)"
    by (force simp: assetMember_def k_def inj)
  then have "set (map (fst \<circ> assetMember) registry) \<inter> set (map fst (obj @ [(k, content f)])) = {}"
    using Cons.prems(2) by auto
  moreover have "distinct (map (assetId \<circ> fst) registry)"
    using Cons.prems(1) by (simp add: comp_def)
  ultimately have "snd (packAssets registry (assets @ [(assetId a, a)], obj @ [(k, content f)]))
      = (obj @ [(k, content f)]) @ map assetMember registry"
    by (rule Cons.IH[rotated])
  then show ?case unfolding step obj' by (simp add: m)
qed

lemma assetMemberName_not_reserved:
  "assetMemberName i \<noteq> ''state.json''" "assetMemberName i \<noteq> ''assets.json''"
  by (simp_all add: assetMemberName_def)

text \<open>The layout of the object handed to \<^verbatim>\<open>zip\<close>.\<close>

lemma zipDataObj_layout:
  "\<exists>ks. map fst (zipDataObj pf snapshot registry) =
           ''state.json'' # ks @ (if registry = [] then [] else [''assets.json''])
        \<and> set ks = set (map (fst \<circ> assetMember) registry) \<and> distinct ks
        \<and> ''state.json'' \<notin> set ks \<and> ''assets.json'' \<notin> set ks
        \<and> (distinct (map (assetId \<circ> fst) registry) \<longrightarrow>
             zipDataObj pf snapshot registry =
               (''state.json'', stringifySnapshot pf snapshot) # map assetMember registry
               @ (if registry = [] then []
                  else [(''assets.json'', stringifyIndex pf (map assetEntry registry))]))"
proof -
  define obj0 where "obj0 = [(''state.json'', stringifySnapshot pf snapshot)]"
  define R where "R = set (map (fst \<circ> assetMember) registry)"
  obtain assets obj where p: "packAssets registry ([], obj0) = (assets, obj)"
    by (cases "packAssets registry ([], obj0)")
  have assets: "assets = map assetEntry registry"
    using packAssets_entries[of registry "[]" obj0] p by simp
  have "\<exists>i. k = assetMemberName i" if "k \<in> R" for k
    using that unfolding R_def by (auto simp: assetMember_def)
  then have R: "''state.json'' \<notin> R" "''assets.json'' \<notin> R"
    using assetMemberName_not_reserved by metis+
  from packAssets_keys[of registry "[]" obj0] p obtain ks where
    ks: "map fst obj = map fst obj0 @ ks" "set ks = R - set (map fst obj0)" "distinct ks"
    unfolding R_def by auto
  have ks1: "map fst obj = ''state.json'' # ks" using ks(1) by (simp add: obj0_def)
  have ks2: "set ks = R" using ks(2) R(1) by (simp add: obj0_def)
  have fresh: "''assets.json'' \<notin> fst ` set obj"
  proof -
    have "fst ` set obj = set (map fst obj)" by simp
    also have "\<dots> = insert ''state.json'' R" unfolding ks1 using ks2 by simp
    finally show ?thesis using R(2) by simp
  qed
  have z: "zipDataObj pf snapshot registry =
      (if registry = [] then obj
       else obj @ [(''assets.json'', stringifyIndex pf (map assetEntry registry))])"
    using p assets setProperty_fresh[OF fresh]
    by (simp add: zipDataObj_def obj0_def)
  have keys: "map fst (zipDataObj pf snapshot registry) =
           ''state.json'' # ks @ (if registry = [] then [] else [''assets.json''])"
    unfolding z using ks1 by simp
  have exact: "zipDataObj pf snapshot registry =
               (''state.json'', stringifySnapshot pf snapshot) # map assetMember registry
               @ (if registry = [] then []
                  else [(''assets.json'', stringifyIndex pf (map assetEntry registry))])"
    if d: "distinct (map (assetId \<circ> fst) registry)"
  proof -
    have "set (map (fst \<circ> assetMember) registry) \<inter> set (map fst obj0) = {}"
      using R(1) unfolding R_def obj0_def by simp
    from packAssets_distinct[OF d this, of "[]"] p
    have "obj = obj0 @ map assetMember registry" by simp
    then show ?thesis unfolding z obj0_def by simp
  qed
  from keys ks2 ks(3) R exact show ?thesis unfolding R_def by (intro exI[of _ ks]) simp
qed



text \<open>
  Claim C4. For every snapshot and every registry, the members of the bundled archive
  are, in order: \<^verbatim>\<open>state.json\<close> first, then the asset members, one for each
  asset id of the registry and none of them named like the other two, then
  \<^verbatim>\<open>assets.json\<close> last; \<^verbatim>\<open>assets.json\<close> is there exactly when the registry is
  not empty. When the ids of the registry are pairwise distinct, as the spec assumes, the
  asset members are \<^verbatim>\<open>assets/<assetId>\<close> with the bytes of the file, one for each
  registered asset in registry iteration order, and \<^verbatim>\<open>assets.json\<close> holds the
  \<^verbatim>\<open>[id, asset]\<close> pairs in the same order. The archive downloaded is the
  \<^verbatim>\<open>zip\<close> of this object.
\<close>

theorem zipDataObj_members:
  "(\<exists>ks. map fst (zipDataObj pf snapshot registry) =
           ''state.json'' # ks @ (if registry = [] then [] else [''assets.json''])
        \<and> set ks = set (map (fst \<circ> assetMember) registry) \<and> distinct ks
        \<and> ''state.json'' \<notin> set ks \<and> ''assets.json'' \<notin> set ks
        \<and> (distinct (map (assetId \<circ> fst) registry) \<longrightarrow>
             zipDataObj pf snapshot registry =
               (''state.json'', stringifySnapshot pf snapshot) # map assetMember registry
               @ (if registry = [] then []
                  else [(''assets.json'', stringifyIndex pf (map assetEntry registry))])))
   \<and> content (DownloadToFile pf snapshot registry nm ZipType) =
       zipData pf (zipDataObj pf snapshot registry)"
proof -
  have "content (DownloadToFile pf snapshot registry nm ZipType) =
       zipData pf (zipDataObj pf snapshot registry)"
    by (simp add: DownloadToFile_def Let_def)
  with zipDataObj_layout[of pf snapshot registry] show ?thesis by blast
qed

text \<open>The theorem on a registry of two assets, and on the empty registry.\<close>

theorem zipDataObj_members_witness:
  "distinct (map (assetId \<circ> fst) demoRegistry)
   \<and> zipDataObj demoPlatform ''{}'' demoRegistry =
       [(''state.json'', ''{}''), (''assets/a1'', ''DATA1''), (''assets/a2'', ''DATA2''),
        (''assets.json'', ''a1;a2;'')]
   \<and> zipDataObj demoPlatform ''{}'' [] = [(''state.json'', ''{}'')]"
proof -
  have d: "distinct (map (assetId \<circ> fst) demoRegistry)"
    by (simp add: demoRegistry_def demoAsset1_def demoAsset2_def)
  from zipDataObj_members[of demoPlatform "''{}''" demoRegistry None] d
  have "zipDataObj demoPlatform ''{}'' demoRegistry =
      (''state.json'', stringifySnapshot demoPlatform ''{}'') # map assetMember demoRegistry
      @ (if demoRegistry = [] then []
         else [(''assets.json'', stringifyIndex demoPlatform (map assetEntry demoRegistry))])"
    by blast
  moreover have "zipDataObj demoPlatform ''{}'' [] = [(''state.json'', ''{}'')]"
    using zipDataObj_members[of demoPlatform "''{}''" "[]" None] by (simp add: demoPlatform_def)
  ultimately show ?thesis
    using d
    by (simp add: demoRegistry_def demoAsset1_def demoAsset2_def demoPlatform_def
        assetMember_def assetEntry_def assetMemberName_def)
qed

section \<open>Snapshots: detecting the format of an opened file\<close>

text \<open>Lower-casing a character gives one of the letters of \<^verbatim>\<open>json\<close> exactly for
  that letter and its capital.\<close>

lemma of_char_toLowerCaseChar:
  "(of_char (toLowerCaseChar c) :: nat) =
     (if 65 \<le> (of_char c :: nat) \<and> (of_char c :: nat) \<le> 90 then of_char c + 32 else of_char c)"
  by (simp add: toLowerCaseChar_def Let_def)

lemma toLowerCaseChar_eq_iff:
  assumes "97 \<le> (of_char l :: nat)" "(of_char l :: nat) \<le> 122"
  shows "toLowerCaseChar c = l \<longleftrightarrow> c = l \<or> c = char_of (of_char l - 32 :: nat)"
proof -
  have inj: "x = y \<longleftrightarrow> (of_char x :: nat) = of_char y" for x y :: char
    by simp
  have small: "(of_char l - 32 :: nat) mod 256 = of_char l - 32"
    using assms by simp
  show ?thesis
    unfolding inj[of "toLowerCaseChar c"] inj[of c] of_char_toLowerCaseChar of_char_of small
    using assms by auto
qed

lemma lower_json_chars:
  "toLowerCaseChar a = CHR ''j'' \<longleftrightarrow> a = CHR ''j'' \<or> a = CHR ''J''"
  "toLowerCaseChar b = CHR ''s'' \<longleftrightarrow> b = CHR ''s'' \<or> b = CHR ''S''"
  "toLowerCaseChar c = CHR ''o'' \<longleftrightarrow> c = CHR ''o'' \<or> c = CHR ''O''"
  "toLowerCaseChar d = CHR ''n'' \<longleftrightarrow> d = CHR ''n'' \<or> d = CHR ''N''"
proof -
  have codes: "char_of (74::nat) = CHR ''J''" "char_of (83::nat) = CHR ''S''"
    "char_of (79::nat) = CHR ''O''" "char_of (78::nat) = CHR ''N''"
    by (simp_all add: char_of_eq_iff)
  show "toLowerCaseChar a = CHR ''j'' \<longleftrightarrow> a = CHR ''j'' \<or> a = CHR ''J''"
    "toLowerCaseChar b = CHR ''s'' \<longleftrightarrow> b = CHR ''s'' \<or> b = CHR ''S''"
    "toLowerCaseChar c = CHR ''o'' \<longleftrightarrow> c = CHR ''o'' \<or> c = CHR ''O''"
    "toLowerCaseChar d = CHR ''n'' \<longleftrightarrow> d = CHR ''n'' \<or> d = CHR ''N''"
    by (simp_all add: toLowerCaseChar_eq_iff codes)
qed

lemma endsWith_suffix: "endsWith s t \<longleftrightarrow> suffix t s"
proof
  assume "endsWith s t"
  then have "s = take (length s - length t) s @ t"
    by (metis append_take_drop_id endsWith_def)
  then show "suffix t s" by (metis suffixI)
next
  assume "suffix t s"
  then obtain p where "s = p @ t" by (auto simp: suffix_def)
  then show "endsWith s t" by (simp add: endsWith_def)
qed

lemma isJson_iff:
  "endsWith (toLowerCase n) ''json'' \<longleftrightarrow>
     (\<exists>p a b c d. n = p @ [a, b, c, d]
        \<and> (a = CHR ''j'' \<or> a = CHR ''J'') \<and> (b = CHR ''s'' \<or> b = CHR ''S'')
        \<and> (c = CHR ''o'' \<or> c = CHR ''O'') \<and> (d = CHR ''n'' \<or> d = CHR ''N''))"
proof -
  have "endsWith (toLowerCase n) ''json'' \<longleftrightarrow> (\<exists>q. map toLowerCaseChar n = q @ ''json'')"
    by (auto simp: endsWith_suffix suffix_def toLowerCase_def)
  also have "\<dots> \<longleftrightarrow> (\<exists>p a b c d. n = p @ [a, b, c, d]
        \<and> toLowerCaseChar a = CHR ''j'' \<and> toLowerCaseChar b = CHR ''s''
        \<and> toLowerCaseChar c = CHR ''o'' \<and> toLowerCaseChar d = CHR ''n'')"
  proof
    assume "\<exists>q. map toLowerCaseChar n = q @ ''json''"
    then obtain q where "map toLowerCaseChar n = q @ ''json''" ..
    then obtain us vs where n: "n = us @ vs" and vs: "map toLowerCaseChar vs = ''json''"
      by (auto simp: map_eq_append_conv)
    from vs obtain a b c d where "vs = [a, b, c, d]" "toLowerCaseChar a = CHR ''j''"
      "toLowerCaseChar b = CHR ''s''" "toLowerCaseChar c = CHR ''o''"
      "toLowerCaseChar d = CHR ''n''"
      by (auto simp: map_eq_Cons_conv)
    with n show "\<exists>p a b c d. n = p @ [a, b, c, d]
        \<and> toLowerCaseChar a = CHR ''j'' \<and> toLowerCaseChar b = CHR ''s''
        \<and> toLowerCaseChar c = CHR ''o'' \<and> toLowerCaseChar d = CHR ''n''"
      by blast
  next
    assume "\<exists>p a b c d. n = p @ [a, b, c, d]
        \<and> toLowerCaseChar a = CHR ''j'' \<and> toLowerCaseChar b = CHR ''s''
        \<and> toLowerCaseChar c = CHR ''o'' \<and> toLowerCaseChar d = CHR ''n''"
    then obtain p a b c d where "n = p @ [a, b, c, d]" "toLowerCaseChar a = CHR ''j''"
      "toLowerCaseChar b = CHR ''s''" "toLowerCaseChar c = CHR ''o''"
      "toLowerCaseChar d = CHR ''n''"
      by blast
    then have "map toLowerCaseChar n = map toLowerCaseChar p @ ''json''" by simp
    then show "\<exists>q. map toLowerCaseChar n = q @ ''json''" ..
  qed
  finally show ?thesis by (simp add: lower_json_chars)
qed

lemma endsWith_json_examples:
  "endsWith (toLowerCase ''foo.moljson'') ''json''"
  "endsWith (toLowerCase ''statejson'') ''json''"
  "endsWith (toLowerCase ''STATE.JSON'') ''json''"
  "\<not> endsWith (toLowerCase ''session.molx'') ''json''"
  "\<not> endsWith (toLowerCase ''json.zip'') ''json''"
  by (simp_all add: endsWith_def toLowerCase_def toLowerCaseChar_def char_of_eq_iff)


section \<open>Snapshots: opening an archive\<close>

text \<open>The key of an asset member, and the dictionary collected from the members: a
  later member replaces an earlier one under the same key.\<close>

lemma indexOf_absent: "c \<notin> set s \<Longrightarrow> indexOf s c = -1"
  by (induction s) auto

lemma indexOf_first: "c \<notin> set pre \<Longrightarrow> indexOf (pre @ c # rest) c = int (length pre)"
  by (induction pre) (auto simp: Let_def)

lemma assetName_after_slash:
  "CHR ''/'' \<notin> set pre \<Longrightarrow> assetName (pre @ CHR ''/'' # rest) = rest"
proof -
  assume "CHR ''/'' \<notin> set pre"
  then have "indexOf (pre @ CHR ''/'' # rest) CHR ''/'' = int (length pre)"
    by (rule indexOf_first)
  moreover have "nat (max 0 (int (length pre) + 1)) = Suc (length pre)" by simp
  ultimately show ?thesis by (simp add: assetName_def substring_def)
qed

lemma assetName_no_slash: "CHR ''/'' \<notin> set k \<Longrightarrow> assetName k = k"
  by (simp add: assetName_def substring_def indexOf_absent)


lemma fold_collectAsset:
  "fold collectAsset data m = m ++ map_of (rev (assetFiles data))"
proof (induction data arbitrary: m)
  case Nil
  show ?case by (simp add: assetFiles_def)
next
  case (Cons kv data)
  show ?case
  proof (cases "fst kv = ''state.json'' \<or> fst kv = ''assets.json''")
    case True
    then have "collectAsset kv m = m" by (auto simp: collectAsset_def Let_def)
    moreover from True have "assetFiles (kv # data) = assetFiles data"
      by (auto simp: assetFiles_def)
    ultimately show ?thesis using Cons.IH[of m] by simp
  next
    case False
    define nm where "nm = assetName (fst kv)"
    define fl where "fl = \<lparr>name = nm, content = snd kv\<rparr>"
    from False have c: "collectAsset kv m = m(nm \<mapsto> fl)"
      by (simp add: collectAsset_def Let_def nm_def fl_def)
    from False have a: "assetFiles (kv # data) = (nm, fl) # assetFiles data"
      by (simp add: assetFiles_def nm_def fl_def)
    have ih: "fold collectAsset data (m(nm \<mapsto> fl)) =
        m(nm \<mapsto> fl) ++ map_of (rev (assetFiles data))"
      by (rule Cons.IH)
    show ?thesis by (simp add: c a ih)
  qed
qed

lemma collectAssets_eq: "collectAssets data = map_of (rev (assetFiles data))"
  by (simp add: collectAssets_def fold_collectAsset)

lemma assetFiles_dom:
  "map_of (rev (assetFiles data)) n = Some fl \<Longrightarrow>
   \<exists>kv\<in>set data. fst kv \<noteq> ''state.json'' \<and> fst kv \<noteq> ''assets.json''
      \<and> assetName (fst kv) = n \<and> fl = \<lparr>name = n, content = snd kv\<rparr>"
proof -
  assume "map_of (rev (assetFiles data)) n = Some fl"
  then have "(n, fl) \<in> set (assetFiles data)" by (auto dest: map_of_SomeD)
  then show ?thesis by (auto simp: assetFiles_def)
qed

lemma assetFiles_collected:
  assumes "kv \<in> set data" "fst kv \<noteq> ''state.json''" "fst kv \<noteq> ''assets.json''"
  shows "\<exists>fl. map_of (rev (assetFiles data)) (assetName (fst kv)) = Some fl
            \<and> name fl = assetName (fst kv)"
proof -
  let ?n = "assetName (fst kv)"
  have "(?n, \<lparr>name = ?n, content = snd kv\<rparr>) \<in> set (rev (assetFiles data))"
    using assms by (auto simp: assetFiles_def)
  then have "?n \<in> fst ` set (rev (assetFiles data))" by force
  then obtain fl where fl: "map_of (rev (assetFiles data)) ?n = Some fl"
    by (metis map_of_eq_None_iff not_Some_eq)
  from assetFiles_dom[OF this] have "name fl = ?n" by auto
  with fl show ?thesis by blast
qed


text \<open>The registration loop and the effects of the handler on an archive.\<close>

lemma registerAssets_eq:
  "registerAssets assets json =
     (map (registration assets) (map the (takeWhile (\<lambda>e. e \<noteq> None) json)), None \<notin> set json)"
proof (induction json)
  case Nil
  show ?case by simp
next
  case (Cons e json)
  show ?case
  proof (cases e)
    case None
    then show ?thesis by simp
  next
    case (Some p)
    obtain i a where p: "p = (i, a)" by (cases p)
    show ?thesis using Cons.IH by (simp add: Some p registration_def)
  qed
qed


lemma openArchive_with_index:
  assumes "unzipData pf (content f) = Some data"
    and "getProperty data ''assets.json'' = Some idx"
    and "parseIndex pf idx = Some json"
  shows "openArchive pf f =
           map (registration (collectAssets data)) (map the (takeWhile (\<lambda>e. e \<noteq> None) json))
           @ (if None \<notin> set json then applyState pf (stateFileText data) else [LogError])"
  using assms by (simp add: openArchive_def registerAssets_eq)

lemma openArchive_without_index:
  assumes "unzipData pf (content f) = Some data"
    and "getProperty data ''assets.json'' = None"
  shows "openArchive pf f = applyState pf (stateFileText data)"
  using assms by (simp add: openArchive_def)


lemma OpenFile_json: "endsWith (toLowerCase (name f)) ''json'' \<Longrightarrow> OpenFile pf f = applyState pf (content f)"
  by (simp add: OpenFile_def openJson_def)

lemma AssetSet_in_trace:
  fixes pf :: "('s, 'i) platform"
  assumes "\<not> endsWith (toLowerCase (name f)) ''json''"
    and "unzipData pf (content f) = Some data"
    and "AssetSet a fo \<in> set (OpenFile pf f)"
  shows "\<exists>idx json i. getProperty data ''assets.json'' = Some idx \<and> parseIndex pf idx = Some json
           \<and> Some (i, a) \<in> set json \<and> fo = collectAssets data i"
proof (cases "getProperty data ''assets.json''")
  case None
  with assms have "AssetSet a fo \<in> set (applyState pf (stateFileText data))"
    by (simp add: OpenFile_def openArchive_without_index)
  then show ?thesis by (auto simp: applyState_def split: option.splits)
next
  case (Some idx)
  show ?thesis
  proof (cases "parseIndex pf idx")
    case None
    with Some assms show ?thesis by (simp add: OpenFile_def openArchive_def)
  next
    case (Some json)
    let ?regs = "map (registration (collectAssets data)) (map the (takeWhile (\<lambda>e. e \<noteq> None) json))
                   :: ('s, 'i) effect list"
    let ?tail = "if None \<notin> set json then applyState pf (stateFileText data) else [LogError]"
    have "OpenFile pf f = ?regs @ ?tail"
      using assms(1) openArchive_with_index[OF assms(2) \<open>getProperty data ''assets.json'' = Some idx\<close> Some]
      by (simp add: OpenFile_def)
    with assms(3) have "AssetSet a fo \<in> set ?regs \<union> set ?tail" by (simp only: set_append)
    moreover have "AssetSet a fo \<notin> set ?tail"
      by (simp add: applyState_def split: option.splits)
    ultimately have "AssetSet a fo \<in> set ?regs" by blast
    then have "(AssetSet a fo :: ('s, 'i) effect) \<in>
        (\<lambda>e. registration (collectAssets data) (the e)) ` set (takeWhile (\<lambda>e. e \<noteq> None) json)"
      by (simp only: set_map image_image)
    then obtain e where e: "e \<in> set (takeWhile (\<lambda>e. e \<noteq> None) json)"
      "(AssetSet a fo :: ('s, 'i) effect) = registration (collectAssets data) (the e)"
      by (rule imageE)
    from e(1) have "e \<in> set json" "e \<noteq> None"
      by (auto dest: set_takeWhileD)
    then obtain i a' where "e = Some (i, a')" by (cases e) auto
    with e(2) \<open>e \<in> set json\<close> have "Some (i, a) \<in> set json" "fo = collectAssets data i"
      by (auto simp: registration_def)
    with \<open>getProperty data ''assets.json'' = Some idx\<close> Some show ?thesis by blast
  qed
qed





text \<open>
  Claim C9. \<^verbatim>\<open>OpenFile\<close> takes the plain JSON path exactly when the name of the
  file ends with the four characters \<^verbatim>\<open>j\<close>, \<^verbatim>\<open>s\<close>, \<^verbatim>\<open>o\<close>, \<^verbatim>\<open>n\<close>, each in
  either case, and processes every other file as an archive. The JSON path parses the
  content of the file as a snapshot and applies it, logging an error when it does not
  parse. The archive path reads the content of the file as an archive and logs an error
  when that fails; otherwise it registers the pairs of \<^verbatim>\<open>assets.json\<close>, if the
  archive has this member, each with the file collected under its id, and then parses and
  applies \<^verbatim>\<open>state.json\<close>, logging an error instead when \<^verbatim>\<open>assets.json\<close> does
  not parse or an entry of it is not a pair. Names such as \<^verbatim>\<open>foo.moljson\<close>,
  \<^verbatim>\<open>statejson\<close> and \<^verbatim>\<open>STATE.JSON\<close> take the JSON path; \<^verbatim>\<open>session.molx\<close> and
  \<^verbatim>\<open>json.zip\<close> do not. On the example platform, a file named \<^verbatim>\<open>STATE.JSON\<close> is
  parsed as JSON text whatever it holds, the archive of two assets is unpacked, and a file
  named \<^verbatim>\<open>json.zip\<close> that holds JSON text is read as an archive, which fails.
\<close>

theorem OpenFile_format_detection:
  fixes pf :: "('s, 'i) platform"
  shows
  "OpenFile pf f =
     (if \<exists>p a b c d. name f = p @ [a, b, c, d]
           \<and> (a = CHR ''j'' \<or> a = CHR ''J'') \<and> (b = CHR ''s'' \<or> b = CHR ''S'')
           \<and> (c = CHR ''o'' \<or> c = CHR ''O'') \<and> (d = CHR ''n'' \<or> d = CHR ''N'')
      then openJson pf f else openArchive pf f)
   \<and> openJson pf f = applyState pf (content f)
   \<and> OpenFile pf (f\<lparr>name := ''foo.moljson''\<rparr>) = openJson pf (f\<lparr>name := ''foo.moljson''\<rparr>)
   \<and> OpenFile pf (f\<lparr>name := ''statejson''\<rparr>) = openJson pf (f\<lparr>name := ''statejson''\<rparr>)
   \<and> OpenFile pf (f\<lparr>name := ''STATE.JSON''\<rparr>) = openJson pf (f\<lparr>name := ''STATE.JSON''\<rparr>)
   \<and> OpenFile pf (f\<lparr>name := ''session.molx''\<rparr>) = openArchive pf (f\<lparr>name := ''session.molx''\<rparr>)
   \<and> OpenFile pf (f\<lparr>name := ''json.zip''\<rparr>) = openArchive pf (f\<lparr>name := ''json.zip''\<rparr>)
   \<and> applyState pf b =
       (case parseSnapshot pf b of None \<Rightarrow> [LogError] | Some s \<Rightarrow> [SetSnapshot s])
   \<and> openArchive pf f =
       (case unzipData pf (content f) of
          None \<Rightarrow> [LogError]
        | Some dat \<Rightarrow>
            (case map_of dat ''assets.json'' of
               None \<Rightarrow> applyState pf (stateFileText dat)
             | Some idx \<Rightarrow>
                 (case parseIndex pf idx of
                    None \<Rightarrow> [LogError]
                  | Some json \<Rightarrow>
                      map (registration (collectAssets dat))
                        (map the (takeWhile (\<lambda>e. e \<noteq> None) json))
                      @ (if None \<notin> set json then applyState pf (stateFileText dat)
                         else [LogError]))))
   \<and> stateFileText dat' = (case map_of dat' ''state.json'' of None \<Rightarrow> ''undefined'' | Some v \<Rightarrow> v)
   \<and> OpenFile demoPlatform \<lparr>name = ''STATE.JSON'', content = ''{}''\<rparr> = [SetSnapshot ''{}'']
   \<and> OpenFile demoPlatform \<lparr>name = ''STATE.JSON'', content = ''PK-demo''\<rparr> = [LogError]
   \<and> OpenFile demoPlatform \<lparr>name = ''mol-star_state_2020-01-01.zip'', content = ''PK-demo''\<rparr> =
       [AssetSet demoAsset1 (Some \<lparr>name = ''a1'', content = ''DATA1''\<rparr>),
        AssetSet demoAsset2 (Some \<lparr>name = ''a2'', content = ''DATA2''\<rparr>),
        SetSnapshot ''{}'']
   \<and> OpenFile demoPlatform \<lparr>name = ''json.zip'', content = ''{}''\<rparr> = [LogError]"
proof -
  have c1: "OpenFile pf f =
     (if \<exists>p a b c d. name f = p @ [a, b, c, d]
           \<and> (a = CHR ''j'' \<or> a = CHR ''J'') \<and> (b = CHR ''s'' \<or> b = CHR ''S'')
           \<and> (c = CHR ''o'' \<or> c = CHR ''O'') \<and> (d = CHR ''n'' \<or> d = CHR ''N'')
      then openJson pf f else openArchive pf f)"
    unfolding OpenFile_def isJson_iff ..
  have c2: "openJson pf f = applyState pf (content f)" by (simp add: openJson_def)
  have c3: "OpenFile pf (f\<lparr>name := ''foo.moljson''\<rparr>) = openJson pf (f\<lparr>name := ''foo.moljson''\<rparr>)"
    "OpenFile pf (f\<lparr>name := ''statejson''\<rparr>) = openJson pf (f\<lparr>name := ''statejson''\<rparr>)"
    "OpenFile pf (f\<lparr>name := ''STATE.JSON''\<rparr>) = openJson pf (f\<lparr>name := ''STATE.JSON''\<rparr>)"
    "OpenFile pf (f\<lparr>name := ''session.molx''\<rparr>) = openArchive pf (f\<lparr>name := ''session.molx''\<rparr>)"
    "OpenFile pf (f\<lparr>name := ''json.zip''\<rparr>) = openArchive pf (f\<lparr>name := ''json.zip''\<rparr>)"
    by (simp_all add: OpenFile_def endsWith_json_examples)
  have c4: "applyState pf b =
       (case parseSnapshot pf b of None \<Rightarrow> [LogError] | Some s \<Rightarrow> [SetSnapshot s])"
    by (simp add: applyState_def)
  have c5: "openArchive pf f =
       (case unzipData pf (content f) of
          None \<Rightarrow> [LogError]
        | Some dat \<Rightarrow>
            (case map_of dat ''assets.json'' of
               None \<Rightarrow> applyState pf (stateFileText dat)
             | Some idx \<Rightarrow>
                 (case parseIndex pf idx of
                    None \<Rightarrow> [LogError]
                  | Some json \<Rightarrow>
                      map (registration (collectAssets dat))
                        (map the (takeWhile (\<lambda>e. e \<noteq> None) json))
                      @ (if None \<notin> set json then applyState pf (stateFileText dat)
                         else [LogError]))))"
  proof (cases "unzipData pf (content f)")
    case None
    then show ?thesis by (simp add: openArchive_def)
  next
    case (Some dat)
    note dat = this
    show ?thesis
    proof (cases "getProperty dat ''assets.json''")
      case None
      from openArchive_without_index[OF dat None] dat None show ?thesis
        by (simp add: getProperty_def)
    next
      case (Some idx)
      note idx = this
      show ?thesis
      proof (cases "parseIndex pf idx")
        case None
        with dat idx show ?thesis by (simp add: openArchive_def getProperty_def)
      next
        case (Some json)
        from openArchive_with_index[OF dat idx Some] dat idx Some show ?thesis
          by (simp only: getProperty_def option.case)
      qed
    qed
  qed
  have c6: "stateFileText dat' =
      (case map_of dat' ''state.json'' of None \<Rightarrow> ''undefined'' | Some v \<Rightarrow> v)"
    by (simp add: stateFileText_def getProperty_def)
  have e1: "OpenFile demoPlatform \<lparr>name = ''STATE.JSON'', content = ''{}''\<rparr> = [SetSnapshot ''{}'']"
    and e2: "OpenFile demoPlatform \<lparr>name = ''STATE.JSON'', content = ''PK-demo''\<rparr> = [LogError]"
    by (simp_all add: OpenFile_def openJson_def applyState_def demoPlatform_def endsWith_def
        toLowerCase_def toLowerCaseChar_def char_of_eq_iff)
  have e3: "OpenFile demoPlatform \<lparr>name = ''mol-star_state_2020-01-01.zip'', content = ''PK-demo''\<rparr> =
       [AssetSet demoAsset1 (Some \<lparr>name = ''a1'', content = ''DATA1''\<rparr>),
        AssetSet demoAsset2 (Some \<lparr>name = ''a2'', content = ''DATA2''\<rparr>),
        SetSnapshot ''{}'']"
    by (simp add: OpenFile_def openArchive_def demoPlatform_def demoBundle_def endsWith_def
        toLowerCase_def toLowerCaseChar_def collectAssets_def collectAsset_def assetName_def
        substring_def getProperty_def stateFileText_def applyState_def Let_def)
  have e4: "OpenFile demoPlatform \<lparr>name = ''json.zip'', content = ''{}''\<rparr> = [LogError]"
    by (simp add: OpenFile_def openArchive_def demoPlatform_def endsWith_def
        toLowerCase_def toLowerCaseChar_def)
  from c1 c2 c3 c4 c5 c6 e1 e2 e3 e4 show ?thesis by (intro conjI)
qed









text \<open>
  Claim C10. The key of a member is the part of its name after the first \<^verbatim>\<open>/\<close>, and
  the whole name when it has none. Every member of an opened archive other than
  \<^verbatim>\<open>state.json\<close> and \<^verbatim>\<open>assets.json\<close> is collected as a file under its key (a
  later member replacing an earlier one with the same key), and nothing else is
  collected. Every registration made by \<^verbatim>\<open>OpenFile\<close> is that of an
  \<^verbatim>\<open>[id, asset]\<close> pair listed in \<^verbatim>\<open>assets.json\<close>, with the file collected under
  this id: a collected file is registered only if its key is such an id. The JSON path
  registers nothing.
\<close>

theorem OpenFile_collects_assets:
  fixes pf :: "('s, 'i) platform"
  shows
  "(CHR ''/'' \<notin> set pre \<longrightarrow> assetName (pre @ CHR ''/'' # rest) = rest)
   \<and> (CHR ''/'' \<notin> set k \<longrightarrow> assetName k = k)
   \<and> collectAssets dat = map_of (rev (assetFiles dat))
   \<and> (\<forall>kv\<in>set dat. fst kv \<noteq> ''state.json'' \<and> fst kv \<noteq> ''assets.json'' \<longrightarrow>
         (\<exists>fl. collectAssets dat (assetName (fst kv)) = Some fl \<and> name fl = assetName (fst kv)))
   \<and> (\<forall>n fl. collectAssets dat n = Some fl \<longrightarrow>
         (\<exists>kv\<in>set dat. fst kv \<noteq> ''state.json'' \<and> fst kv \<noteq> ''assets.json''
            \<and> assetName (fst kv) = n \<and> fl = \<lparr>name = n, content = snd kv\<rparr>))
   \<and> (\<forall>a fo. \<not> endsWith (toLowerCase (name f)) ''json'' \<and> unzipData pf (content f) = Some dat
         \<and> AssetSet a fo \<in> set (OpenFile pf f) \<longrightarrow>
         (\<exists>idx json i. getProperty dat ''assets.json'' = Some idx \<and> parseIndex pf idx = Some json
            \<and> Some (i, a) \<in> set json \<and> fo = collectAssets dat i))
   \<and> (\<forall>a fo. AssetSet a fo \<in> set (OpenFile pf f) \<longrightarrow>
         \<not> endsWith (toLowerCase (name f)) ''json'' \<and> (\<exists>dat'. unzipData pf (content f) = Some dat'))"
proof -
  have c4: "\<forall>kv\<in>set dat. fst kv \<noteq> ''state.json'' \<and> fst kv \<noteq> ''assets.json'' \<longrightarrow>
         (\<exists>fl. collectAssets dat (assetName (fst kv)) = Some fl \<and> name fl = assetName (fst kv))"
    using assetFiles_collected[of _ dat] unfolding collectAssets_eq by blast
  have c5: "\<forall>n fl. collectAssets dat n = Some fl \<longrightarrow>
         (\<exists>kv\<in>set dat. fst kv \<noteq> ''state.json'' \<and> fst kv \<noteq> ''assets.json''
            \<and> assetName (fst kv) = n \<and> fl = \<lparr>name = n, content = snd kv\<rparr>)"
    using assetFiles_dom[of dat] unfolding collectAssets_eq by blast
  have c6: "\<forall>a fo. \<not> endsWith (toLowerCase (name f)) ''json'' \<and> unzipData pf (content f) = Some dat
         \<and> AssetSet a fo \<in> set (OpenFile pf f) \<longrightarrow>
         (\<exists>idx json i. getProperty dat ''assets.json'' = Some idx \<and> parseIndex pf idx = Some json
            \<and> Some (i, a) \<in> set json \<and> fo = collectAssets dat i)"
    using AssetSet_in_trace[of f pf dat] by blast
  have c7: "\<not> endsWith (toLowerCase (name f)) ''json'' \<and> (\<exists>dat'. unzipData pf (content f) = Some dat')"
    if "AssetSet a fo \<in> set (OpenFile pf f)" for a fo
  proof -
    have "\<not> endsWith (toLowerCase (name f)) ''json''"
      using that by (auto simp: OpenFile_json applyState_def split: option.splits)
    moreover from this that have "\<exists>dat'. unzipData pf (content f) = Some dat'"
      by (cases "unzipData pf (content f)") (simp_all add: OpenFile_def openArchive_def)
    ultimately show ?thesis by blast
  qed
  from assetName_after_slash[of pre rest] assetName_no_slash[of k] collectAssets_eq[of dat]
    c4 c5 c6 c7
  show ?thesis by blast
qed

text \<open>The theorem on two member names and on the archive of two assets.\<close>

theorem OpenFile_collects_assets_witness:
  "assetName ''assets/a/b'' = ''a/b'' \<and> assetName ''plain'' = ''plain''
   \<and> collectAssets demoBundle ''a1'' = Some \<lparr>name = ''a1'', content = ''DATA1''\<rparr>
   \<and> collectAssets demoBundle ''a2'' = Some \<lparr>name = ''a2'', content = ''DATA2''\<rparr>
   \<and> AssetSet demoAsset2 (Some \<lparr>name = ''a2'', content = ''DATA2''\<rparr>)
        \<in> set (OpenFile demoPlatform demoArchive)
   \<and> (\<exists>idx json i. getProperty demoBundle ''assets.json'' = Some idx
         \<and> parseIndex demoPlatform idx = Some json \<and> Some (i, demoAsset2) \<in> set json
         \<and> Some \<lparr>name = ''a2'', content = ''DATA2''\<rparr> = collectAssets demoBundle i)"
proof -
  let ?fo = "Some \<lparr>name = ''a2'', content = ''DATA2''\<rparr>"
  note inst = OpenFile_collects_assets[of "''assets''" "''a/b''" "''plain''" demoBundle
      demoArchive demoPlatform]
  have n1: "assetName ''assets/a/b'' = ''a/b''"
    using inst by simp
  have n2: "assetName ''plain'' = ''plain''"
    using inst by simp
  have c1: "collectAssets demoBundle ''a1'' = Some \<lparr>name = ''a1'', content = ''DATA1''\<rparr>"
    and c2: "collectAssets demoBundle ''a2'' = ?fo"
    by (simp_all add: collectAssets_def collectAsset_def demoBundle_def assetName_def
        substring_def Let_def)
  have h1: "\<not> endsWith (toLowerCase (name demoArchive)) ''json''"
    by (simp add: demoArchive_def endsWith_def toLowerCase_def toLowerCaseChar_def)
  have h2: "unzipData demoPlatform (content demoArchive) = Some demoBundle"
    by (simp add: demoArchive_def demoPlatform_def)
  have h3: "AssetSet demoAsset2 ?fo \<in> set (OpenFile demoPlatform demoArchive)"
    using h1 h2 c1 c2
    by (simp add: OpenFile_def openArchive_def demoPlatform_def demoBundle_def getProperty_def
        stateFileText_def applyState_def Let_def)
  from inst h1 h2 h3
  have "\<exists>idx json i. getProperty demoBundle ''assets.json'' = Some idx
         \<and> parseIndex demoPlatform idx = Some json \<and> Some (i, demoAsset2) \<in> set json
         \<and> ?fo = collectAssets demoBundle i"
    by blast
  with n1 n2 c1 c2 h3 show ?thesis by blast
qed

section \<open>Snapshots: upload\<close>



section \<open>Snapshots: apply\<close>

text \<open>
  Claim C8. \<^verbatim>\<open>setCurrent\<close> returns the payload of the entry with the given id if
  there is one and nothing otherwise, and marks the entry found as the current one;
  \<^verbatim>\<open>Apply\<close> calls \<^verbatim>\<open>setSnapshot\<close> with the returned payload exactly when the id
  is found, and otherwise has no effect and leaves the snapshot manager as it is.
\<close>

theorem Apply_setCurrent:
  "fst (setCurrent m i) = map_option payload (find (\<lambda>e. entryId e = i) (entries m))
   \<and> snd (setCurrent m i) =
       (if \<exists>e\<in>set (entries m). entryId e = i then m\<lparr>current := Some i\<rparr> else m)
   \<and> ((\<exists>e\<in>set (entries m). entryId e = i) \<longleftrightarrow> fst (setCurrent m i) \<noteq> None)
   \<and> (Apply m i :: ('s, 'i) effect list \<times> 's snapshotManager) =
       (case fst (setCurrent m i) of
          None \<Rightarrow> ([], m)
        | Some s \<Rightarrow> ([SetSnapshot s], m\<lparr>current := Some i\<rparr>))"
proof (cases "find (\<lambda>e. entryId e = i) (entries m)")
  case None
  then have "\<not> (\<exists>e\<in>set (entries m). entryId e = i)" by (simp add: find_None_iff)
  with None show ?thesis by (simp add: setCurrent_def Apply_def)
next
  case (Some e)
  then have "\<exists>e\<in>set (entries m). entryId e = i" by (auto simp: find_Some_iff)
  with Some show ?thesis by (simp add: setCurrent_def Apply_def)
qed

end
